theory Spec2Isabelle
  imports Complex_Main "HOL-Library.Sublist"
begin

section \<open>Python values and exceptions\<close>

text \<open>
  The engine of \<^verbatim>\<open>eca.py\<close> is dynamically typed: event attributes, scope entries and the
  results of condition callables are arbitrary Python objects. The built-in values that the
  code of the module distinguishes are modelled by one datatype. A \<^verbatim>\<open>dict\<close> is an
  association list with string keys (the attribute names of an event); a finite \<^verbatim>\<open>float\<close>
  is the rational number it denotes (the only operation the module applies to a float is the
  comparison with \<^verbatim>\<open>False\<close>).
\<close>

datatype pyval =
    PNone
  | PBool bool
  | PInt int
  | PFloat rat
  | PStr string
  | PList "pyval list"
  | PDict "(string \<times> pyval) list"

text \<open>Python truthiness (\<^verbatim>\<open>bool(x)\<close>), as used by \<^verbatim>\<open>data or {}\<close>.\<close>

fun truthy :: "pyval \<Rightarrow> bool" where
  "truthy PNone = False"
| "truthy (PBool b) = b"
| "truthy (PInt i) = (i \<noteq> 0)"
| "truthy (PFloat f) = (f \<noteq> 0)"
| "truthy (PStr s) = (s \<noteq> [])"
| "truthy (PList xs) = (xs \<noteq> [])"
| "truthy (PDict kvs) = (kvs \<noteq> [])"

text \<open>\<^verbatim>\<open>x == False\<close>: \<^verbatim>\<open>bool\<close> is a subclass of \<^verbatim>\<open>int\<close> with \<^verbatim>\<open>False == 0\<close>, and numbers
  compare by value across \<^verbatim>\<open>int\<close> and \<^verbatim>\<open>float\<close>; no other built-in value equals \<^verbatim>\<open>False\<close>.\<close>

fun eq_False :: "pyval \<Rightarrow> bool" where
  "eq_False (PBool b) = (\<not> b)"
| "eq_False (PInt i) = (i = 0)"
| "eq_False (PFloat f) = (f = 0)"
| "eq_False PNone = False"
| "eq_False (PStr s) = False"
| "eq_False (PList xs) = False"
| "eq_False (PDict kvs) = False"

text \<open>\<^verbatim>\<open>isinstance(x, collections.Mapping)\<close>.\<close>

fun isinstance_Mapping :: "pyval \<Rightarrow> bool" where
  "isinstance_Mapping (PDict kvs) = True"
| "isinstance_Mapping _ = False"


text \<open>
  The exceptions that the module raises itself or lets through. \<^verbatim>\<open>Empty\<close> is
  \<^verbatim>\<open>queue.Empty\<close>; \<^verbatim>\<open>Raised\<close> stands for any exception raised by user code (a condition
  or an action).
\<close>

datatype error =
    AssertionError
  | KeyError string
  | TypeError
  | AttributeError string
  | NotImplementedError string
  | Empty
  | Raised string


section \<open>Events\<close>

text \<open>
  \<^verbatim>\<open>
  class Event:
      def __init__(self, name, data=None):
          self.name = name
          self.data = data or {}
          assert isinstance(self.data, collections.Mapping)

      def __getattr__(self, name):
          return self.data[name]
  \<close>
  An omitted \<^verbatim>\<open>data\<close> argument is \<^verbatim>\<open>None\<close>. The name is stored unchecked.
\<close>

record Event =
  name :: string
  data :: pyval

definition Event_init :: "string \<Rightarrow> pyval \<Rightarrow> error + Event" where
  "Event_init nm d =
     (let d' = (if truthy d then d else PDict [])
      in if isinstance_Mapping d' then Inr \<lparr>name = nm, data = d'\<rparr> else Inl AssertionError)"


section \<open>Contexts and the current-context binding\<close>

text \<open>
  Objects with identity are referred to by a reference: a \<^verbatim>\<open>Context\<close> object, a thread
  and a function object each by a natural number. A \<^verbatim>\<open>Context\<close> owns an unbounded FIFO
  queue (\<^verbatim>\<open>queue.Queue()\<close>: \<^verbatim>\<open>put\<close> appends, \<^verbatim>\<open>get\<close> takes the head) and a scope
  (\<^verbatim>\<open>util.NamespaceDict()\<close>, a dictionary). The diagnostic stream written by
  \<^verbatim>\<open>_trace\<close> is not part of the model; the formatting helpers of the absent module
  \<^verbatim>\<open>util\<close> are taken to return normally.
\<close>

type_synonym ctxid = nat
type_synonym tid = nat
type_synonym fnid = nat

record Context =
  event_queue :: "Event list"
  scope :: "(string \<times> pyval) list"
  done_flag :: bool
  trace :: bool

text \<open>
  \<^verbatim>\<open>thread_local = threading.local()\<close>: every thread has its own attribute
  \<^verbatim>\<open>context\<close>, which is missing until the thread assigns it.
\<close>

datatype binding = Unset | Attr "ctxid option"

record world =
  contexts :: "ctxid \<Rightarrow> Context"
  thread_local :: "tid \<Rightarrow> binding"

text \<open>\<^verbatim>\<open>getattr(thread_local, 'context', None)\<close>.\<close>

fun getattr_context :: "binding \<Rightarrow> ctxid option" where
  "getattr_context Unset = None"
| "getattr_context (Attr c) = c"

text \<open>\<^verbatim>\<open>Context.receive_event\<close>: \<^verbatim>\<open>self.event_queue.put(event)\<close>.\<close>

definition receive_event :: "ctxid \<Rightarrow> Event \<Rightarrow> world \<Rightarrow> world" where
  "receive_event c e w =
     w\<lparr>contexts := (contexts w)
          (c := (contexts w c)\<lparr>event_queue := event_queue (contexts w c) @ [e]\<rparr>)\<rparr>"

text \<open>
  \<^verbatim>\<open>
  @contextmanager
  def context_switch(context):
      old_context = getattr(thread_local, 'context', None)
      thread_local.context = context
      yield
      thread_local.context = old_context
  \<close>
  The block of the \<^verbatim>\<open>with\<close> statement is a state transformer that returns or raises.
  When it raises, \<^verbatim>\<open>contextmanager\<close> throws the exception into the generator at the
  \<^verbatim>\<open>yield\<close>; the generator has no \<^verbatim>\<open>try\<close>/\<^verbatim>\<open>finally\<close> around it, so the exception
  leaves the generator there and the last assignment is not executed.
\<close>

definition context_switch ::
  "tid \<Rightarrow> ctxid option \<Rightarrow> (world \<Rightarrow> (error + 'a) \<times> world) \<Rightarrow> world \<Rightarrow> (error + 'a) \<times> world" where
  "context_switch t context blk w =
     (let old_context = getattr_context (thread_local w t);
          w1 = w\<lparr>thread_local := (thread_local w)(t := Attr context)\<rparr>
      in case blk w1 of
           (Inl err, w2) \<Rightarrow> (Inl err, w2)
         | (Inr v, w2) \<Rightarrow> (Inr v, w2\<lparr>thread_local := (thread_local w2)(t := Attr old_context)\<rparr>))"

text \<open>
  \<^verbatim>\<open>
  def new_event(eventname, data=None):
      e = Event(eventname, data)
      if getattr(thread_local, 'context', None) is None:
          raise NotImplementedError("Can't invoke new_event without a current context.")
      thread_local.context.receive_event(e)
  \<close>
  called by thread \<open>t\<close>.
\<close>

definition new_event :: "tid \<Rightarrow> string \<Rightarrow> pyval \<Rightarrow> world \<Rightarrow> (error + unit) \<times> world" where
  "new_event t eventname d w =
     (case Event_init eventname d of
        Inl err \<Rightarrow> (Inl err, w)
      | Inr e \<Rightarrow>
          (case getattr_context (thread_local w t) of
             None \<Rightarrow>
               (Inl (NotImplementedError ''Can't invoke new_event without a current context.''), w)
           | Some c \<Rightarrow> (Inr (), receive_event c e w)))"

section \<open>Rules and their registration\<close>

text \<open>
  A condition or an action is a Python callable applied to \<^verbatim>\<open>(self.scope, event)\<close>. It
  runs in a thread, sees the scope of the dispatching context by reference, may change any
  scope or queue and the binding of its thread, and returns a value or raises. The
  registry is not in its reach: rules are registered before contexts run.
\<close>

type_synonym callable = "tid \<Rightarrow> ctxid \<Rightarrow> Event \<Rightarrow> world \<Rightarrow> (error + pyval) \<times> world"

text \<open>A function object: its code and the two attributes that \<^verbatim>\<open>prepare_action\<close> attaches
  (\<open>None\<close> while the attribute is missing).\<close>

record fn_obj =
  body :: callable
  conditions :: "callable list option"
  events :: "string set option"

text \<open>
  \<^verbatim>\<open>rules = set()\<close>. A Python set of function objects holds each object once (functions
  hash and compare by identity) and iterates in the order of its hash table, which depends
  on the hashes of the members and not on the order of insertion. The registry is the list
  of the members in iteration order; where \<^verbatim>\<open>add\<close> puts a new member, and how it
  rearranges the others, is a parameter \<open>place\<close> of the model.
\<close>

record registry =
  rules :: "fnid list"
  fns :: "fnid \<Rightarrow> fn_obj"

type_synonym place = "fnid \<Rightarrow> fnid list \<Rightarrow> fnid list"

definition valid_place :: "place \<Rightarrow> bool" where
  "valid_place place \<longleftrightarrow>
     (\<forall>x xs. x \<notin> set xs \<and> distinct xs \<longrightarrow>
        distinct (place x xs) \<and> set (place x xs) = insert x (set xs))"

definition set_add :: "place \<Rightarrow> fnid \<Rightarrow> fnid list \<Rightarrow> fnid list" where
  "set_add place x xs = (if x \<in> set xs then xs else place x xs)"

text \<open>
  \<^verbatim>\<open>
  def prepare_action(fn):
      fn.conditions = getattr(fn, 'conditions', [])
      fn.events = getattr(fn, 'events', set())
      rules.add(fn)
  \<close>
\<close>

definition getattr_conditions :: "fn_obj \<Rightarrow> callable list" where
  "getattr_conditions f = (case conditions f of None \<Rightarrow> [] | Some cs \<Rightarrow> cs)"

definition getattr_events :: "fn_obj \<Rightarrow> string set" where
  "getattr_events f = (case events f of None \<Rightarrow> {} | Some es \<Rightarrow> es)"

definition prepare_action :: "place \<Rightarrow> fnid \<Rightarrow> registry \<Rightarrow> registry" where
  "prepare_action place fn R =
     (let f = fns R fn;
          f' = f\<lparr>conditions := Some (getattr_conditions f), events := Some (getattr_events f)\<rparr>
      in \<lparr>rules = set_add place fn (rules R), fns = (fns R)(fn := f')\<rparr>)"

text \<open>\<^verbatim>\<open>condition(c)(fn)\<close>: \<^verbatim>\<open>prepare_action(fn); fn.conditions.append(c)\<close>.\<close>

definition condition :: "place \<Rightarrow> callable \<Rightarrow> fnid \<Rightarrow> registry \<Rightarrow> registry" where
  "condition place c fn R =
     (let R1 = prepare_action place fn R; f = fns R1 fn
      in R1\<lparr>fns := (fns R1)(fn := f\<lparr>conditions := map_option (\<lambda>cs. cs @ [c]) (conditions f)\<rparr>)\<rparr>)"

text \<open>\<^verbatim>\<open>event(eventname)(fn)\<close>: \<^verbatim>\<open>prepare_action(fn); fn.events.add(eventname)\<close>.\<close>

definition event :: "place \<Rightarrow> string \<Rightarrow> fnid \<Rightarrow> registry \<Rightarrow> registry" where
  "event place eventname fn R =
     (let R1 = prepare_action place fn R; f = fns R1 fn
      in R1\<lparr>fns := (fns R1)(fn := f\<lparr>events := map_option (insert eventname) (events f)\<rparr>)\<rparr>)"

text \<open>A registration call on an action, and a sequence of them applied in order.\<close>

datatype reg_call = Cond callable | Ev string

fun register :: "place \<Rightarrow> fnid \<Rightarrow> reg_call \<Rightarrow> registry \<Rightarrow> registry" where
  "register place fn (Cond c) R = condition place c fn R"
| "register place fn (Ev n) R = event place n fn R"

fun register_all :: "place \<Rightarrow> fnid \<Rightarrow> reg_call list \<Rightarrow> registry \<Rightarrow> registry" where
  "register_all place fn [] R = R"
| "register_all place fn (k # ks) R = register_all place fn ks (register place fn k R)"

text \<open>The conditions and the event names that a sequence of registration calls attaches.\<close>

fun conds_of :: "reg_call list \<Rightarrow> callable list" where
  "conds_of [] = []"
| "conds_of (Cond c # ks) = c # conds_of ks"
| "conds_of (Ev n # ks) = conds_of ks"

fun names_of :: "reg_call list \<Rightarrow> string set" where
  "names_of [] = {}"
| "names_of (Cond c # ks) = names_of ks"
| "names_of (Ev n # ks) = insert n (names_of ks)"

text \<open>Every member of the registry carries both attributes, as after \<^verbatim>\<open>prepare_action\<close>.\<close>

definition registered :: "registry \<Rightarrow> bool" where
  "registered R =
     list_all (\<lambda>r. conditions (fns R r) \<noteq> None \<and> events (fns R r) \<noteq> None) (rules R)"

text \<open>\<^verbatim>\<open>nm in r.events\<close> for a rule that has the attribute.\<close>

definition reacts_to :: "registry \<Rightarrow> fnid \<Rightarrow> string \<Rightarrow> bool" where
  "reacts_to R r nm = (case events (fns R r) of None \<Rightarrow> False | Some es \<Rightarrow> nm \<in> es)"

section \<open>The dispatch step\<close>

text \<open>
  What the dispatch step calls is recorded beside the state, out of reach of the callables:
  \<open>CondCall r i\<close> for the evaluation of condition number \<open>i\<close> of rule \<open>r\<close>,
  \<open>ActionCall r\<close> for the invocation of the action \<open>r\<close>. Each function below returns its
  outcome, the state it leaves and the calls it made, in order.
\<close>

datatype call = CondCall fnid nat | ActionCall fnid

fun rule_of :: "call \<Rightarrow> fnid" where
  "rule_of (CondCall r i) = r"
| "rule_of (ActionCall r) = r"

fun is_action :: "call \<Rightarrow> bool" where
  "is_action (ActionCall r) = True"
| "is_action (CondCall r i) = False"

text \<open>The actions invoked, in the order of their invocation.\<close>

definition invoked :: "call list \<Rightarrow> fnid list" where
  "invoked l = map rule_of (filter is_action l)"

text \<open>\<^verbatim>\<open>[r for r in rules if event.name in r.events]\<close>, over the members in iteration
  order; reading a missing attribute raises \<^verbatim>\<open>AttributeError\<close>.\<close>

fun candidates :: "registry \<Rightarrow> Event \<Rightarrow> fnid list \<Rightarrow> error + fnid list" where
  "candidates R e [] = Inr []"
| "candidates R e (r # rs) =
     (case events (fns R r) of
        None \<Rightarrow> Inl (AttributeError ''events'')
      | Some es \<Rightarrow>
          (case candidates R e rs of
             Inl err \<Rightarrow> Inl err
           | Inr cs \<Rightarrow> Inr (if name e \<in> es then r # cs else cs)))"

text \<open>\<^verbatim>\<open>[c(self.scope, event) for c in r.conditions]\<close>: every condition is called, in
  order, each on the state its predecessor left; the first one that raises ends the
  comprehension.\<close>

fun eval_conditions ::
  "tid \<Rightarrow> ctxid \<Rightarrow> Event \<Rightarrow> fnid \<Rightarrow> nat \<Rightarrow> callable list \<Rightarrow> world
     \<Rightarrow> (error + pyval list) \<times> world \<times> call list" where
  "eval_conditions t self e r i [] w = (Inr [], w, [])"
| "eval_conditions t self e r i (c # cs) w =
     (case c t self e w of
        (Inl err, w1) \<Rightarrow> (Inl err, w1, [CondCall r i])
      | (Inr v, w1) \<Rightarrow>
          (case eval_conditions t self e r (Suc i) cs w1 of
             (Inl err, w2, l) \<Rightarrow> (Inl err, w2, CondCall r i # l)
           | (Inr vs, w2, l) \<Rightarrow> (Inr (v # vs), w2, CondCall r i # l)))"

text \<open>\<^verbatim>\<open>xs.count(False)\<close>: the number of members that compare equal to \<^verbatim>\<open>False\<close>.\<close>

definition count_False :: "pyval list \<Rightarrow> nat" where
  "count_False vs = length (filter eq_False vs)"

text \<open>
  The body of the loop over the candidates:
  \<^verbatim>\<open>
  if not [c(self.scope, event) for c in r.conditions].count(False):
      result = r(self.scope, event)
  \<close>
\<close>

definition run_rule ::
  "registry \<Rightarrow> tid \<Rightarrow> ctxid \<Rightarrow> Event \<Rightarrow> fnid \<Rightarrow> world \<Rightarrow> (error + unit) \<times> world \<times> call list" where
  "run_rule R t self e r w =
     (case conditions (fns R r) of
        None \<Rightarrow> (Inl (AttributeError ''conditions''), w, [])
      | Some cs \<Rightarrow>
          (case eval_conditions t self e r 0 cs w of
             (Inl err, w1, l) \<Rightarrow> (Inl err, w1, l)
           | (Inr vs, w1, l) \<Rightarrow>
               if count_False vs = 0 then
                 (case body (fns R r) t self e w1 of
                    (Inl err, w2) \<Rightarrow> (Inl err, w2, l @ [ActionCall r])
                  | (Inr res, w2) \<Rightarrow> (Inr (), w2, l @ [ActionCall r]))
               else (Inr (), w1, l)))"

text \<open>\<^verbatim>\<open>for r in candidates: ...\<close>; an exception ends the loop.\<close>

fun run_candidates ::
  "registry \<Rightarrow> tid \<Rightarrow> ctxid \<Rightarrow> Event \<Rightarrow> fnid list \<Rightarrow> world \<Rightarrow> (error + unit) \<times> world \<times> call list" where
  "run_candidates R t self e [] w = (Inr (), w, [])"
| "run_candidates R t self e (r # rs) w =
     (case run_rule R t self e r w of
        (Inl err, w1, l) \<Rightarrow> (Inl err, w1, l)
      | (Inr u, w1, l) \<Rightarrow>
          (case run_candidates R t self e rs w1 of (res, w2, l') \<Rightarrow> (res, w2, l @ l')))"

text \<open>\<^verbatim>\<open>except queue.Empty: pass\<close> encloses the whole step.\<close>

fun except_Empty :: "(error + unit) \<times> world \<times> call list \<Rightarrow> (error + unit) \<times> world \<times> call list" where
  "except_Empty (Inl Empty, w, l) = (Inr (), w, l)"
| "except_Empty (res, w, l) = (res, w, l)"

text \<open>
  \<^verbatim>\<open>Context._handle_one\<close>, run by thread \<open>t\<close> for the context \<open>self\<close>. With an empty
  queue \<^verbatim>\<open>get(timeout=1.0)\<close> raises \<^verbatim>\<open>queue.Empty\<close> (no other thread delivers an event during
  the wait), which the handler swallows.
\<close>

definition handle_one ::
  "registry \<Rightarrow> tid \<Rightarrow> ctxid \<Rightarrow> world \<Rightarrow> (error + unit) \<times> world \<times> call list" where
  "handle_one R t self w =
     (case event_queue (contexts w self) of
        [] \<Rightarrow> (Inr (), w, [])
      | e # q \<Rightarrow>
          (let w1 = w\<lparr>contexts := (contexts w)(self := (contexts w self)\<lparr>event_queue := q\<rparr>)\<rparr>
           in except_Empty
                (case candidates R e (rules R) of
                   Inl err \<Rightarrow> (Inl err, w1, [])
                 | Inr cands \<Rightarrow> run_candidates R t self e cands w1)))"

text \<open>The calls made by a step.\<close>

definition calls :: "(error + 'a) \<times> world \<times> call list \<Rightarrow> call list" where
  "calls out = snd (snd out)"

section \<open>Sample configurations\<close>

text \<open>
  A world in which every queue and scope is empty and no thread has a binding; callables
  that return a fixed value and leave the state alone; one that raises.
\<close>

definition idle_context :: Context where
  "idle_context = \<lparr>event_queue = [], scope = [], done_flag = False, trace = False\<rparr>"

definition idle_world :: world where
  "idle_world = \<lparr>contexts = (\<lambda>c. idle_context), thread_local = (\<lambda>t. Unset)\<rparr>"

definition returning :: "pyval \<Rightarrow> callable" where
  "returning v t self e w = (Inr v, w)"

definition raising :: "string \<Rightarrow> world \<Rightarrow> (error + unit) \<times> world" where
  "raising msg w = (Inl (Raised msg), w)"

definition plain_fn :: fn_obj where
  "plain_fn = \<lparr>body = returning PNone, conditions = None, events = None\<rparr>"

definition no_rules :: registry where
  "no_rules = \<lparr>rules = [], fns = (\<lambda>f. plain_fn)\<rparr>"

text \<open>
  A placement in the manner of CPython for a small table without collisions: a function
  object hashes to its address divided by 16, the table has 8 slots, and iteration goes
  through the slots in ascending order.
\<close>

definition slot :: "fnid \<Rightarrow> nat" where
  "slot a = (a div 16) mod 8"

definition by_slot :: place where
  "by_slot x xs = insort_key slot x xs"

text \<open>The same world after thread 0 has entered \<^verbatim>\<open>with context_switch(c1)\<close> for the context 1.\<close>

definition bound_world :: world where
  "bound_world = idle_world\<lparr>thread_local := (thread_local idle_world)(0 := Attr (Some 1))\<rparr>"

text \<open>
  A block for thread 0 that enters a scope for the context 2, raises inside it, catches
  the exception outside it and then emits an event:
  \<^verbatim>\<open>
  try:
      with context_switch(c2):
          raise Exception('boom')
  except Exception:
      pass
  new_event('after')
  \<close>
\<close>

definition nested_block :: "world \<Rightarrow> (error + unit) \<times> world" where
  "nested_block w =
     (case context_switch 0 (Some 2) (raising ''boom'') w of
        (res, w1) \<Rightarrow> new_event 0 ''after'' PNone w1)"

text \<open>The world \<open>idle_world\<close> with one event \<open>nm\<close> waiting in the queue of context \<open>c\<close>.\<close>

definition pending :: "ctxid \<Rightarrow> string \<Rightarrow> world" where
  "pending c nm = receive_event c \<lparr>name = nm, data = PDict []\<rparr> idle_world"

text \<open>The event of that world, and three actions at the addresses 80, 32 and 48 registered
  in this order: the first two for \<^verbatim>\<open>tick\<close>, the third for \<^verbatim>\<open>tock\<close>.\<close>

definition tick :: Event where
  "tick = \<lparr>name = ''tick'', data = PDict []\<rparr>"

definition three_rules :: registry where
  "three_rules =
     event by_slot ''tock'' 48 (event by_slot ''tick'' 32 (event by_slot ''tick'' 80 no_rules))"

text \<open>One action for \<^verbatim>\<open>tick\<close> guarded by conditions that return the given values.\<close>

definition guarded :: "pyval list \<Rightarrow> registry" where
  "guarded vs =
     register_all by_slot 80 (map (\<lambda>v. Cond (returning v)) vs) (event by_slot ''tick'' 80 no_rules)"

section \<open>Events: construction and attribute lookup\<close>



lemma Event_init_valid:
  "\<not> truthy d \<or> isinstance_Mapping d \<Longrightarrow>
   Event_init nm d = Inr \<lparr>name = nm, data = (if truthy d then d else PDict [])\<rparr>"
  by (auto simp: Event_init_def)

lemma Event_init_invalid:
  "truthy d \<Longrightarrow> \<not> isinstance_Mapping d \<Longrightarrow> Event_init nm d = Inl AssertionError"
  by (simp add: Event_init_def)



text \<open>
  Claim C8, as the code has it: the constructor does not look at the name. With the empty
  name and no data it returns an event.
\<close>

theorem Event_init_empty_name: "Event_init [] PNone = Inr \<lparr>name = [], data = PDict []\<rparr>"
  by (simp add: Event_init_def)

text \<open>
  Claim C8, amended. Constructing an event without an attribute mapping succeeds for every
  name, the empty one included, and the data of the event is the empty mapping.
\<close>

theorem Event_init_default_data: "Event_init nm PNone = Inr \<lparr>name = nm, data = PDict []\<rparr>"
  by (simp add: Event_init_def)

text \<open>
  Claim C10. For every name, a data argument that is truthy and no mapping makes the
  construction fail with the assertion error, and whenever the construction returns an
  event, the data of that event is a mapping.
\<close>

theorem Event_init_mapping_only:
  "(truthy d \<and> \<not> isinstance_Mapping d \<longrightarrow> Event_init nm d = Inl AssertionError) \<and>
   (\<forall>e. Event_init nm d = Inr e \<longrightarrow> isinstance_Mapping (data e))"
  by (auto simp: Event_init_def Let_def split: if_splits)

theorem Event_init_mapping_only_witness:
  "truthy (PList [PInt 1]) \<and> \<not> isinstance_Mapping (PList [PInt 1]) \<and>
   Event_init ''tick'' (PList [PInt 1]) = Inl AssertionError \<and>
   truthy (PStr ''n=1'') \<and> \<not> isinstance_Mapping (PStr ''n=1'') \<and>
   Event_init ''tick'' (PStr ''n=1'') = Inl AssertionError \<and>
   Event_init ''tick'' (PDict [(''n'', PInt 1)]) =
     Inr \<lparr>name = ''tick'', data = PDict [(''n'', PInt 1)]\<rparr> \<and>
   isinstance_Mapping (data \<lparr>name = ''tick'', data = PDict [(''n'', PInt 1)]\<rparr>)"
  using Event_init_mapping_only [of "PList [PInt 1]" "''tick''"]
    Event_init_mapping_only [of "PStr ''n=1''" "''tick''"]
    Event_init_mapping_only [of "PDict [(''n'', PInt 1)]" "''tick''"]
  by (simp add: Event_init_def)

section \<open>Emission and the current-context binding\<close>

text \<open>
  Claim C5, as the code has it: the event is constructed before the binding is looked at.
  Without a bound context, a call whose data argument is a non-empty list fails with the
  assertion error of the constructor, not with \<^verbatim>\<open>NotImplementedError\<close>.
\<close>

theorem new_event_unbound_assertion:
  "getattr_context (thread_local idle_world 0) = None \<and>
   new_event 0 ''tick'' (PList [PInt 1]) idle_world = (Inl AssertionError, idle_world)"
  by (simp add: new_event_def Event_init_def idle_world_def)

text \<open>
  Claim C5, amended. A call whose data argument is truthy and no mapping fails with the
  assertion error and enqueues nothing. Every other call: without a bound context for the
  calling thread it fails with \<^verbatim>\<open>NotImplementedError\<close> and leaves the state as it was;
  with the context \<open>c\<close> bound it returns, the new event (the given name, the given data or
  the empty mapping for a falsy argument) is appended to the queue of \<open>c\<close>, and nothing else
  changes: no other field of \<open>c\<close>, no other context, no binding.
\<close>

theorem new_event_delivery:
  "(truthy d \<and> \<not> isinstance_Mapping d \<longrightarrow> new_event t nm d w = (Inl AssertionError, w)) \<and>
   ((\<not> truthy d \<or> isinstance_Mapping d) \<and> getattr_context (thread_local w t) = None \<longrightarrow>
      (\<exists>msg. fst (new_event t nm d w) = Inl (NotImplementedError msg)) \<and>
      snd (new_event t nm d w) = w) \<and>
   (\<forall>c. (\<not> truthy d \<or> isinstance_Mapping d) \<and> getattr_context (thread_local w t) = Some c \<longrightarrow>
      fst (new_event t nm d w) = Inr () \<and>
      contexts (snd (new_event t nm d w)) c =
        (contexts w c)\<lparr>event_queue := event_queue (contexts w c) @
           [\<lparr>name = nm, data = (if truthy d then d else PDict [])\<rparr>]\<rparr> \<and>
      (\<forall>c'. c' \<noteq> c \<longrightarrow> contexts (snd (new_event t nm d w)) c' = contexts w c') \<and>
      thread_local (snd (new_event t nm d w)) = thread_local w)"
proof (intro conjI impI allI)
  assume "truthy d \<and> \<not> isinstance_Mapping d"
  then show "new_event t nm d w = (Inl AssertionError, w)"
    by (simp add: new_event_def Event_init_invalid)
next
  assume a: "(\<not> truthy d \<or> isinstance_Mapping d) \<and> getattr_context (thread_local w t) = None"
  then have e: "Event_init nm d = Inr \<lparr>name = nm, data = (if truthy d then d else PDict [])\<rparr>"
    using Event_init_valid by blast
  from a show "\<exists>msg. fst (new_event t nm d w) = Inl (NotImplementedError msg)"
    by (simp add: new_event_def e)
  from a show "snd (new_event t nm d w) = w"
    by (simp add: new_event_def e)
next
  fix c
  assume a: "(\<not> truthy d \<or> isinstance_Mapping d) \<and> getattr_context (thread_local w t) = Some c"
  then have e: "Event_init nm d = Inr \<lparr>name = nm, data = (if truthy d then d else PDict [])\<rparr>"
    using Event_init_valid by blast
  from a have n: "new_event t nm d w =
      (Inr (), receive_event c \<lparr>name = nm, data = (if truthy d then d else PDict [])\<rparr> w)"
    by (simp add: new_event_def e)
  show "fst (new_event t nm d w) = Inr ()" by (simp add: n)
  show "contexts (snd (new_event t nm d w)) c =
        (contexts w c)\<lparr>event_queue := event_queue (contexts w c) @
           [\<lparr>name = nm, data = (if truthy d then d else PDict [])\<rparr>]\<rparr>"
    by (simp add: n receive_event_def)
  show "thread_local (snd (new_event t nm d w)) = thread_local w"
    by (simp add: n receive_event_def)
  fix c' assume "c' \<noteq> c"
  then show "contexts (snd (new_event t nm d w)) c' = contexts w c'"
    by (simp add: n receive_event_def)
qed

theorem new_event_delivery_witness:
  "truthy (PList [PInt 1]) \<and> \<not> isinstance_Mapping (PList [PInt 1]) \<and>
   new_event 0 ''tick'' (PList [PInt 1]) bound_world = (Inl AssertionError, bound_world) \<and>
   getattr_context (thread_local idle_world 0) = None \<and>
   snd (new_event 0 ''tick'' PNone idle_world) = idle_world \<and>
   getattr_context (thread_local bound_world 0) = Some 1 \<and>
   fst (new_event 0 ''tick'' PNone bound_world) = Inr () \<and>
   event_queue (contexts (snd (new_event 0 ''tick'' PNone bound_world)) 1) =
     [\<lparr>name = ''tick'', data = PDict []\<rparr>] \<and>
   event_queue (contexts (snd (new_event 0 ''tick'' PNone bound_world)) 2) = []"
  using new_event_delivery [of "PList [PInt 1]" 0 "''tick''" bound_world]
    new_event_delivery [of PNone 0 "''tick''" idle_world]
    new_event_delivery [of PNone 0 "''tick''" bound_world]
  by (simp add: bound_world_def idle_world_def idle_context_def)

text \<open>A scope whose block returns restores the binding that its thread had on entry and
  leaves the bindings of the other threads as the block left them.\<close>

lemma context_switch_returns:
  assumes "blk (w\<lparr>thread_local := (thread_local w)(t := Attr c)\<rparr>) = (Inr v, w2)"
  shows "fst (context_switch t c blk w) = Inr v"
    and "thread_local (snd (context_switch t c blk w)) t = Attr (getattr_context (thread_local w t))"
    and "t' \<noteq> t \<Longrightarrow> thread_local (snd (context_switch t c blk w)) t' = thread_local w2 t'"
  using assms by (simp_all add: context_switch_def Let_def)

text \<open>A scope whose block raises passes on the exception and the state of the block.\<close>

lemma context_switch_raises:
  assumes "blk (w\<lparr>thread_local := (thread_local w)(t := Attr c)\<rparr>) = (Inl err, w2)"
  shows "context_switch t c blk w = (Inl err, w2)"
  using assms by (simp add: context_switch_def Let_def)

text \<open>
  Claim C3, on the code. Thread 0 is bound to the context 1 and enters a scope for the
  context 2 whose block raises: the exception leaves the scope and the thread stays bound to
  the context 2. Hence, in a scope for the context 1, the block \<open>nested_block\<close> delivers
  its event to the queue of the context 2 and none to the queue of the context 1.
\<close>

theorem context_switch_raise_keeps_inner:
  "thread_local bound_world 0 = Attr (Some 1) \<and>
   fst (context_switch 0 (Some 2) (raising ''boom'') bound_world) = Inl (Raised ''boom'') \<and>
   thread_local (snd (context_switch 0 (Some 2) (raising ''boom'') bound_world)) 0 = Attr (Some 2) \<and>
   event_queue (contexts (snd (context_switch 0 (Some 1) nested_block idle_world)) 1) = [] \<and>
   event_queue (contexts (snd (context_switch 0 (Some 1) nested_block idle_world)) 2) =
     [\<lparr>name = ''after'', data = PDict []\<rparr>]"
  by (simp add: context_switch_def nested_block_def raising_def new_event_def Event_init_def
      receive_event_def bound_world_def idle_world_def idle_context_def)

section \<open>Registration\<close>

text \<open>The unfolding rules for the sample configurations and for one dispatch step.\<close>

lemmas sample_defs = three_rules_def guarded_def event_def condition_def prepare_action_def
  set_add_def by_slot_def slot_def no_rules_def plain_fn_def getattr_conditions_def
  getattr_events_def pending_def receive_event_def idle_world_def idle_context_def tick_def
  Let_def

lemmas step_defs = handle_one_def run_rule_def count_False_def calls_def invoked_def
  returning_def

lemma valid_place_by_slot: "valid_place by_slot"
  by (simp add: valid_place_def by_slot_def set_insort_key distinct_insort)

lemma set_add_valid:
  assumes "valid_place place" and "distinct xs"
  shows "distinct (set_add place x xs) \<and> set (set_add place x xs) = insert x (set xs)"
  using assms by (auto simp: set_add_def valid_place_def)

lemma set_add_member: "x \<in> set xs \<Longrightarrow> set_add place x xs = xs"
  by (simp add: set_add_def)

lemma rules_register: "rules (register place fn k R) = set_add place fn (rules R)"
  by (cases k) (simp_all add: condition_def event_def prepare_action_def Let_def)

lemma rules_register_all_member:
  "fn \<in> set (rules R) \<Longrightarrow> rules (register_all place fn ks R) = rules R"
  by (induction ks arbitrary: R) (simp_all add: rules_register set_add_member)

lemma rules_register_all:
  assumes "valid_place place" and "distinct (rules R)" and "ks \<noteq> []"
  shows "rules (register_all place fn ks R) = set_add place fn (rules R)"
proof -
  from assms(3) obtain k ks' where ks: "ks = k # ks'" by (cases ks) auto
  from set_add_valid [OF assms(1,2)] have "fn \<in> set (set_add place fn (rules R))" by simp
  then have "fn \<in> set (rules (register place fn k R))" by (simp add: rules_register)
  from rules_register_all_member [OF this] show ?thesis by (simp add: ks rules_register)
qed

lemma distinct_count_list: "distinct xs \<Longrightarrow> x \<in> set xs \<Longrightarrow> count_list xs x = 1"
  by (induction xs) (auto simp: count_list_0_iff)

lemma attrs_register:
  "conditions (fns (register place fn k R) fn) = Some (getattr_conditions (fns R fn) @ conds_of [k]) \<and>
   events (fns (register place fn k R) fn) = Some (getattr_events (fns R fn) \<union> names_of [k])"
  by (cases k) (simp_all add: condition_def event_def prepare_action_def Let_def)

lemma attrs_register_all:
  "ks \<noteq> [] \<Longrightarrow>
   conditions (fns (register_all place fn ks R) fn) = Some (getattr_conditions (fns R fn) @ conds_of ks) \<and>
   events (fns (register_all place fn ks R) fn) = Some (getattr_events (fns R fn) \<union> names_of ks)"
proof (induction ks arbitrary: R)
  case Nil
  then show ?case by simp
next
  case (Cons k ks)
  note one = attrs_register [of place fn k R]
  show ?case
  proof (cases "ks = []")
    case True
    with one show ?thesis by simp
  next
    case False
    from Cons.IH [OF False, of "register place fn k R"] one
    show ?thesis
      by (cases k) (simp_all add: getattr_conditions_def getattr_events_def)
  qed
qed

lemma prepare_action_fresh:
  "conditions (fns R fn) = None \<and> events (fns R fn) = None \<Longrightarrow>
   conditions (fns (prepare_action place fn R) fn) = Some [] \<and>
   events (fns (prepare_action place fn R) fn) = Some {}"
  by (simp add: prepare_action_def Let_def getattr_conditions_def getattr_events_def)

text \<open>
  Claim C4. Let the set place its members in any way that a set may (\<open>valid_place\<close>),
  and let the registry hold each member once. After any non-empty sequence of registration
  calls on an action \<open>fn\<close>, the registry has exactly one entry for \<open>fn\<close> and is
  otherwise as before; if \<open>fn\<close> was a member already, the registry is unchanged. The first
  \<^verbatim>\<open>prepare_action\<close> on an action without the two attributes installs the empty condition
  list and the empty set of event names, and the calls accumulate on that one entry: its
  conditions are those it had followed by the attached ones in order, its event names those
  it had together with the attached ones.
\<close>

theorem one_entry_per_action:
  assumes "valid_place place" and "distinct (rules R)" and "ks \<noteq> []"
  shows "count_list (rules (register_all place fn ks R)) fn = 1 \<and>
         set (rules (register_all place fn ks R)) = insert fn (set (rules R)) \<and>
         (fn \<in> set (rules R) \<longrightarrow> rules (register_all place fn ks R) = rules R) \<and>
         (conditions (fns R fn) = None \<and> events (fns R fn) = None \<longrightarrow>
            conditions (fns (prepare_action place fn R) fn) = Some [] \<and>
            events (fns (prepare_action place fn R) fn) = Some {}) \<and>
         conditions (fns (register_all place fn ks R) fn) =
           Some (getattr_conditions (fns R fn) @ conds_of ks) \<and>
         events (fns (register_all place fn ks R) fn) =
           Some (getattr_events (fns R fn) \<union> names_of ks)"
proof -
  note r = rules_register_all [OF assms, of fn]
  note v = set_add_valid [OF assms(1,2), of fn]
  from r v have "count_list (rules (register_all place fn ks R)) fn = 1"
    by (simp add: distinct_count_list)
  moreover from r v have "set (rules (register_all place fn ks R)) = insert fn (set (rules R))"
    by simp
  moreover have "fn \<in> set (rules R) \<longrightarrow> rules (register_all place fn ks R) = rules R"
    by (simp add: rules_register_all_member)
  ultimately show ?thesis
    using attrs_register_all [OF assms(3), of place fn R] prepare_action_fresh [of R fn place]
    by blast
qed

theorem one_entry_per_action_witness:
  "valid_place by_slot \<and> distinct (rules no_rules) \<and>
   rules (register_all by_slot 80 [Ev ''tick'', Cond (returning (PBool True)), Ev ''tock''] no_rules) = [80] \<and>
   count_list (rules (register_all by_slot 80
      [Ev ''tick'', Cond (returning (PBool True)), Ev ''tock''] no_rules)) 80 = 1 \<and>
   conditions (fns (register_all by_slot 80
      [Ev ''tick'', Cond (returning (PBool True)), Ev ''tock''] no_rules) 80) = Some [returning (PBool True)] \<and>
   events (fns (register_all by_slot 80
      [Ev ''tick'', Cond (returning (PBool True)), Ev ''tock''] no_rules) 80) = Some {''tick'', ''tock''}"
proof -
  have d: "distinct (rules no_rules)" by (simp add: no_rules_def)
  have n: "[Ev ''tick'', Cond (returning (PBool True)), Ev ''tock''] \<noteq> []" by simp
  have r: "rules (register_all by_slot 80
      [Ev ''tick'', Cond (returning (PBool True)), Ev ''tock''] no_rules) = [80]"
    by (simp add: sample_defs)
  show ?thesis
    using one_entry_per_action [OF valid_place_by_slot d n, of 80] valid_place_by_slot d r
    by (simp add: no_rules_def plain_fn_def getattr_conditions_def getattr_events_def insert_commute)
qed

text \<open>The registry of a fresh module has no members, and every registration call keeps
  the registry a set whose members carry both attributes.\<close>

lemma fns_register_other: "g \<noteq> fn \<Longrightarrow> fns (register place fn k R) g = fns R g"
  by (cases k) (simp_all add: condition_def event_def prepare_action_def Let_def)

lemma registered_no_rules: "registered no_rules"
  by (simp add: registered_def no_rules_def)

lemma registered_register:
  assumes "valid_place place" and "distinct (rules R)" and "registered R"
  shows "registered (register place fn k R) \<and> distinct (rules (register place fn k R))"
proof -
  note v = set_add_valid [OF assms(1,2), of fn]
  have "conditions (fns (register place fn k R) r) \<noteq> None \<and>
        events (fns (register place fn k R) r) \<noteq> None"
    if "r \<in> set (rules (register place fn k R))" for r
  proof (cases "r = fn")
    case True
    with attrs_register [of place fn k R] show ?thesis by simp
  next
    case False
    with that v have "r \<in> set (rules R)" by (simp add: rules_register)
    with assms(3) False show ?thesis
      by (simp add: registered_def list_all_iff fns_register_other)
  qed
  then have "registered (register place fn k R)"
    by (simp add: registered_def list_all_iff)
  with v show ?thesis by (simp add: rules_register)
qed

section \<open>Dispatch\<close>

lemma candidates_filter:
  "list_all (\<lambda>r. events (fns R r) \<noteq> None) rs \<Longrightarrow>
   candidates R e rs = Inr (filter (\<lambda>r. reacts_to R r (name e)) rs)"
  by (induction rs) (auto simp: reacts_to_def)

lemma candidates_subseq: "candidates R e rs = Inr cs \<Longrightarrow> subseq cs rs"
proof (induction rs arbitrary: cs)
  case Nil
  then show ?case by simp
next
  case (Cons r rs)
  then show ?case
    by (auto split: option.splits sum.splits if_splits)
qed

lemma eval_conditions_calls:
  "eval_conditions t self e r i cs w = (res, w', l) \<Longrightarrow>
   (\<forall>k\<in>set l. \<not> is_action k \<and> rule_of k = r) \<and>
   (\<forall>vs. res = Inr vs \<longrightarrow> length vs = length cs \<and> l = map (CondCall r) [i..<i + length cs])"
proof (induction cs arbitrary: i w res w' l)
  case Nil
  then show ?case by auto
next
  case (Cons c cs)
  obtain x w1 where c: "c t self e w = (x, w1)" by (cases "c t self e w")
  show ?case
  proof (cases x)
    case (Inl err)
    with Cons.prems c show ?thesis by auto
  next
    case (Inr v)
    obtain res2 w2 l2 where r: "eval_conditions t self e r (Suc i) cs w1 = (res2, w2, l2)"
      by (cases "eval_conditions t self e r (Suc i) cs w1")
    note ih = Cons.IH [OF r]
    from Cons.prems c Inr r have l: "l = CondCall r i # l2"
      by (cases res2) auto
    from Cons.prems c Inr r have res: "\<And>vs. res = Inr vs \<Longrightarrow> \<exists>vs2. res2 = Inr vs2 \<and> vs = v # vs2"
      by (cases res2) auto
    have a: "\<forall>k\<in>set l. \<not> is_action k \<and> rule_of k = r" using ih l by simp
    have b: "length vs = length (c # cs) \<and> l = map (CondCall r) [i..<i + length (c # cs)]"
      if "res = Inr vs" for vs
    proof -
      from that obtain vs2 where v: "res2 = Inr vs2" "vs = v # vs2" using res by blast
      with ih have "length vs2 = length cs" "l2 = map (CondCall r) [Suc i..<Suc i + length cs]"
        by simp_all
      moreover have "[i..<Suc (i + length cs)] = i # [Suc i..<Suc (i + length cs)]"
        by (rule upt_conv_Cons) simp
      ultimately show ?thesis
        using v l by (simp del: upt_Suc)
    qed
    from a b show ?thesis by blast
  qed
qed


lemma run_rule_calls:
  assumes "conditions (fns R r) = Some cs"
    and "eval_conditions t self e r 0 cs w = (Inr vs, w1, l)"
  shows "calls (run_rule R t self e r w) = (if count_False vs = 0 then l @ [ActionCall r] else l)"
  using assms by (simp add: run_rule_def calls_def split: prod.splits sum.splits)

lemma run_rule_calls_raise:
  assumes "conditions (fns R r) = Some cs"
    and "eval_conditions t self e r 0 cs w = (Inl err, w1, l)"
  shows "run_rule R t self e r w = (Inl err, w1, l)"
  using assms by (simp add: run_rule_def)

lemma run_rule_rule_of:
  "\<forall>k\<in>set (calls (run_rule R t self e r w)). rule_of k = r"
proof (cases "conditions (fns R r)")
  case None
  then show ?thesis by (simp add: run_rule_def calls_def)
next
  case (Some cs)
  obtain res w1 l where ev: "eval_conditions t self e r 0 cs w = (res, w1, l)"
    by (cases "eval_conditions t self e r 0 cs w")
  from eval_conditions_calls [OF ev] have l: "\<forall>k\<in>set l. rule_of k = r" by blast
  show ?thesis
  proof (cases res)
    case (Inl err)
    with Some ev l show ?thesis by (simp add: run_rule_def calls_def)
  next
    case (Inr vs)
    with run_rule_calls [OF Some] ev l show ?thesis by auto
  qed
qed

lemma run_rule_invoked:
  "invoked (calls (run_rule R t self e r w)) = [] \<or> invoked (calls (run_rule R t self e r w)) = [r]"
proof (cases "conditions (fns R r)")
  case None
  then show ?thesis by (simp add: run_rule_def calls_def invoked_def)
next
  case (Some cs)
  obtain res w1 l where ev: "eval_conditions t self e r 0 cs w = (res, w1, l)"
    by (cases "eval_conditions t self e r 0 cs w")
  from eval_conditions_calls [OF ev] have "\<forall>k\<in>set l. \<not> is_action k" by blast
  then have l: "filter is_action l = []" by (simp add: filter_empty_conv)
  show ?thesis
  proof (cases res)
    case (Inl err)
    with Some ev l show ?thesis by (simp add: run_rule_def calls_def invoked_def)
  next
    case (Inr vs)
    with run_rule_calls [OF Some] ev l show ?thesis by (auto simp: invoked_def)
  qed
qed

lemma invoked_append: "invoked (l @ l') = invoked l @ invoked l'"
  by (simp add: invoked_def)

lemma run_candidates_calls:
  "run_candidates R t self e rs w = (res, w', l) \<Longrightarrow>
   (\<forall>k\<in>set l. rule_of k \<in> set rs) \<and> subseq (invoked l) rs"
proof (induction rs arbitrary: w res w' l)
  case Nil
  then show ?case by (simp add: invoked_def)
next
  case (Cons r rs)
  obtain x w1 l1 where rr: "run_rule R t self e r w = (x, w1, l1)"
    by (cases "run_rule R t self e r w")
  from run_rule_rule_of [of R t self e r w] rr have l1: "\<forall>k\<in>set l1. rule_of k = r"
    by (simp add: calls_def)
  from run_rule_invoked [of R t self e r w] rr have i1: "invoked l1 = [] \<or> invoked l1 = [r]"
    by (simp add: calls_def)
  show ?case
  proof (cases x)
    case (Inl err)
    with Cons.prems rr have "l = l1" by simp
    with l1 i1 show ?thesis by auto
  next
    case (Inr u)
    obtain res2 w2 l2 where rc: "run_candidates R t self e rs w1 = (res2, w2, l2)"
      by (cases "run_candidates R t self e rs w1")
    from Cons.prems rr Inr rc have l: "l = l1 @ l2" by simp
    from Cons.IH [OF rc] have ih: "\<forall>k\<in>set l2. rule_of k \<in> set rs" "subseq (invoked l2) rs"
      by simp_all
    from i1 ih(2) have "subseq (invoked l1 @ invoked l2) (r # rs)"
      by (auto simp: subseq_Cons')
    with l l1 ih(1) show ?thesis by (auto simp: invoked_append)
  qed
qed

lemma calls_except_Empty: "calls (except_Empty out) = calls out"
  by (cases out rule: except_Empty.cases) (simp_all add: calls_def)

lemma registered_events: "registered R \<Longrightarrow> list_all (\<lambda>r. events (fns R r) \<noteq> None) (rules R)"
  by (simp add: registered_def list_all_iff)

lemma handle_one_calls:
  assumes "event_queue (contexts w self) = e # q" and "candidates R e (rules R) = Inr cs"
  shows "\<forall>k\<in>set (calls (handle_one R t self w)). rule_of k \<in> set cs"
proof -
  let ?w1 = "w\<lparr>contexts := (contexts w)(self := (contexts w self)\<lparr>event_queue := q\<rparr>)\<rparr>"
  obtain res w' l where rc: "run_candidates R t self e cs ?w1 = (res, w', l)"
    by (cases "run_candidates R t self e cs ?w1")
  from assms rc have "calls (handle_one R t self w) = l"
    by (simp add: handle_one_def Let_def calls_except_Empty) (simp add: calls_def)
  with run_candidates_calls [OF rc] show ?thesis by simp
qed

text \<open>
  Claim C1. For a registry whose members carry the attributes, and an event \<open>e\<close> at the
  head of the queue of a context: the candidates computed by \<^verbatim>\<open>_handle_one\<close> are the
  members whose set of event names contains the name of \<open>e\<close>; a rule with an empty set of
  event names is no candidate; and every call that the step makes, of a condition or of an
  action, belongs to a candidate.
\<close>

theorem candidates_by_event_name:
  assumes "registered R" and "event_queue (contexts w self) = e # q"
  shows "\<exists>cs. candidates R e (rules R) = Inr cs \<and>
           set cs = {r \<in> set (rules R). \<exists>es. events (fns R r) = Some es \<and> name e \<in> es} \<and>
           (\<forall>r. events (fns R r) = Some {} \<longrightarrow> r \<notin> set cs) \<and>
           (\<forall>k\<in>set (calls (handle_one R t self w)). rule_of k \<in> set cs)"
proof -
  let ?cs = "filter (\<lambda>r. reacts_to R r (name e)) (rules R)"
  have c: "candidates R e (rules R) = Inr ?cs"
    by (rule candidates_filter) (rule registered_events [OF assms(1)])
  have s: "set ?cs = {r \<in> set (rules R). \<exists>es. events (fns R r) = Some es \<and> name e \<in> es}"
    by (auto simp: reacts_to_def split: option.splits)
  have n: "\<forall>r. events (fns R r) = Some {} \<longrightarrow> r \<notin> set ?cs"
    by (simp add: reacts_to_def)
  from handle_one_calls [OF assms(2) c]
  have "\<forall>k\<in>set (calls (handle_one R t self w)). rule_of k \<in> set ?cs" .
  with c s n show ?thesis by blast
qed

theorem candidates_by_event_name_witness:
  "registered three_rules \<and> event_queue (contexts (pending 1 ''tick'') 1) = [tick] \<and>
   rules three_rules = [32, 48, 80] \<and>
   candidates three_rules tick (rules three_rules) = Inr [32, 80] \<and>
   calls (handle_one three_rules 0 1 (pending 1 ''tick'')) = [ActionCall 32, ActionCall 80]"
proof -
  have h1: "registered three_rules" by (simp add: registered_def sample_defs)
  have h2: "event_queue (contexts (pending 1 ''tick'') 1) = tick # []" by (simp add: sample_defs)
  have r: "rules three_rules = [32, 48, 80]" by (simp add: sample_defs)
  have c: "candidates three_rules tick (rules three_rules) = Inr [32, 80]"
    by (simp add: r) (simp add: sample_defs)
  have l: "calls (handle_one three_rules 0 1 (pending 1 ''tick'')) = [ActionCall 32, ActionCall 80]"
    by (simp add: handle_one_def h2 c calls_def) (simp add: run_rule_def count_False_def sample_defs returning_def)
  show ?thesis
    using candidates_by_event_name [OF h1 h2, of 0] h1 h2 r c l by simp
qed






text \<open>
  Claim C6, as the code has it: the registry is a Python set, which iterates in the order of
  its hash table. The action at address 80 is registered first and the action at address 32
  second, both for \<^verbatim>\<open>tick\<close>; the set iterates 32 before 80, and the step invokes the
  action registered later first.
\<close>

theorem later_registered_runs_first:
  "rules (event by_slot ''tick'' 80 no_rules) = [80] \<and>
   rules (event by_slot ''tick'' 32 (event by_slot ''tick'' 80 no_rules)) = [32, 80] \<and>
   invoked (calls (handle_one (event by_slot ''tick'' 32 (event by_slot ''tick'' 80 no_rules))
      0 1 (pending 1 ''tick''))) = [32, 80]"
  by (simp add: sample_defs) (simp add: step_defs)

text \<open>
  Claim C6, amended. The actions that a dispatch step invokes are invoked in the iteration
  order of the rules set: their sequence is a subsequence of the registry in iteration order,
  so for a given registry ordering the order of invocation is fixed. Where a registration
  call puts an action in that order is decided by the set alone, not by the order of
  registration.
\<close>

theorem invoked_in_iteration_order:
  "subseq (invoked (calls (handle_one R t self w))) (rules R) \<and>
   rules (register place fn k R) = set_add place fn (rules R)"
proof
  show "rules (register place fn k R) = set_add place fn (rules R)"
    by (cases k) (simp_all add: condition_def event_def prepare_action_def Let_def)
  show "subseq (invoked (calls (handle_one R t self w))) (rules R)"
  proof (cases "event_queue (contexts w self)")
    case Nil
    then show ?thesis by (simp add: handle_one_def calls_def invoked_def)
  next
    case (Cons e q)
    let ?w1 = "w\<lparr>contexts := (contexts w)(self := (contexts w self)\<lparr>event_queue := q\<rparr>)\<rparr>"
    show ?thesis
    proof (cases "candidates R e (rules R)")
      case (Inl err)
      with Cons have "calls (handle_one R t self w) = []"
        by (simp add: handle_one_def Let_def calls_except_Empty) (simp add: calls_def)
      then show ?thesis by (simp add: invoked_def)
    next
      case (Inr cs)
      obtain res w' l where rc: "run_candidates R t self e cs ?w1 = (res, w', l)"
        by (cases "run_candidates R t self e cs ?w1")
      from Cons Inr rc have "calls (handle_one R t self w) = l"
        by (simp add: handle_one_def Let_def calls_except_Empty) (simp add: calls_def)
      moreover from run_candidates_calls [OF rc] have "subseq (invoked l) cs" by simp
      moreover from candidates_subseq [OF Inr] have "subseq cs (rules R)" .
      ultimately show ?thesis by (metis subseq_order.order_trans)
    qed
  qed
qed

end
